theory Spec2Isabelle
  imports Complex_Main "HOL-Library.Sublist"
begin

section \<open>Strings\<close>

text \<open>
  A JavaScript string is a sequence of UTF-16 code units. A code unit is modelled by its
  numeric value; the values below 65536 are the code units of the language, and nothing
  below depends on that bound. Equality of strings (\<^verbatim>\<open>===\<close>) is equality of lists.
\<close>

type_synonym code_unit = nat
type_synonym jstring = "code_unit list"

text \<open>
  \<^verbatim>\<open>s.includes(q)\<close>: \<open>q\<close> occurs in \<open>s\<close> as a contiguous run of code units, searched from every
  start position.
\<close>

fun js_includes :: "jstring \<Rightarrow> jstring \<Rightarrow> bool" where
  "js_includes [] q = (q = [])"
| "js_includes (c # cs) q = (prefix q (c # cs) \<or> js_includes cs q)"

section \<open>Text normalizer (utils/textUtils.ts)\<close>

text \<open>
  \<^verbatim>\<open>toLocaleLowerCase('tr-TR')\<close> is a built-in of the platform, not code of the repository.
  It is a parameter of everything below: a function from strings to strings. What is used
  of it is stated as three properties of such a function, each one a fact of Unicode
  lowercasing in the Turkish locale.
\<close>

type_synonym lowercasing = "jstring \<Rightarrow> jstring"

text \<open>
  The Turkish rules on Latin text. \<open>toLower_unit\<close> is the simple lowercase mapping of Basic
  Latin, Latin-1 Supplement and Latin Extended-A (U+0000 to U+017F). \<open>tr_lower_unit\<close> puts the
  two Turkish rules before it: U+0130 (capital I with dot) becomes U+0069 and U+0049 (capital
  I) becomes U+0131 (dotless i). \<open>turkish_rules lc\<close> says that \<open>lc\<close> lowercases a string of code
  units up to U+017F unit by unit in this way; it says nothing of other strings.
\<close>

definition toLower_unit :: "code_unit \<Rightarrow> code_unit" where
  "toLower_unit c =
     (if 0x41 \<le> c \<and> c \<le> 0x5A then c + 32
      else if 0xC0 \<le> c \<and> c \<le> 0xDE \<and> c \<noteq> 0xD7 then c + 32
      else if c = 0x130 then 0x69
      else if (0x100 \<le> c \<and> c \<le> 0x137 \<or> 0x14A \<le> c \<and> c \<le> 0x177) \<and> even c then c + 1
      else if (0x139 \<le> c \<and> c \<le> 0x148 \<or> 0x179 \<le> c \<and> c \<le> 0x17E) \<and> odd c then c + 1
      else if c = 0x178 then 0xFF
      else c)"

definition tr_lower_unit :: "code_unit \<Rightarrow> code_unit" where
  "tr_lower_unit c =
     (if c = 0x130 then 0x69 else if c = 0x49 then 0x131 else toLower_unit c)"

definition turkish_rules :: "lowercasing \<Rightarrow> bool" where
  "turkish_rules lc = (\<forall>s. (\<forall>c\<in>set s. c \<le> 0x17F) \<longrightarrow> lc s = map tr_lower_unit s)"

text \<open>
  Lowercasing a lowercased string changes nothing; and a string that lowercasing leaves
  unchanged is still left unchanged after one of its code units is replaced by a small
  ASCII letter (U+0061 to U+007A).
\<close>

definition lowercase_idempotent :: "lowercasing \<Rightarrow> bool" where
  "lowercase_idempotent lc = (\<forall>s. lc (lc s) = lc s)"

definition lowercase_closed :: "lowercasing \<Rightarrow> bool" where
  "lowercase_closed lc =
     (\<forall>s i c. lc s = s \<and> i < length s \<and> 0x61 \<le> c \<and> c \<le> 0x7A \<longrightarrow>
        lc (s[i := c]) = s[i := c])"

text \<open>
  A function with the three properties, for evaluating the program on sample inputs: the
  Turkish rules applied to every code unit.
\<close>

definition tr_lower :: lowercasing where
  "tr_lower s = map tr_lower_unit s"

text \<open>
  \<^verbatim>\<open>s.replace(/x/g, 'y')\<close> for a pattern of one code unit and a replacement of one code unit:
  every occurrence is replaced, left to right.
\<close>

definition replace_all :: "code_unit \<Rightarrow> code_unit \<Rightarrow> jstring \<Rightarrow> jstring" where
  "replace_all x y s = map (\<lambda>c. if c = x then y else c) s"

text \<open>
  \<^verbatim>\<open>normalizeTurkish\<close>: the guard \<^verbatim>\<open>if (!text) return ""\<close> (the only falsy value of type string
  is the empty string), the lowercasing, then the six replacements in the order of the source:
  U+011F to g, U+00FC to u, U+015F to s, U+0131 to i, U+00F6 to o, U+00E7 to c.
\<close>

definition normalizeTurkish :: "lowercasing \<Rightarrow> jstring \<Rightarrow> jstring" where
  "normalizeTurkish toLocaleLowerCase text =
     (if text = [] then []
      else
        let normalized = toLocaleLowerCase text
        in replace_all 0xE7 0x63
            (replace_all 0xF6 0x6F
              (replace_all 0x131 0x69
                (replace_all 0x15F 0x73
                  (replace_all 0xFC 0x75
                    (replace_all 0x11F 0x67 normalized))))))"

text \<open>The combined effect of the six replacements on one code unit.\<close>

definition replacements :: "code_unit \<Rightarrow> code_unit" where
  "replacements c =
     (if c = 0x11F then 0x67 else if c = 0xFC then 0x75 else if c = 0x15F then 0x73
      else if c = 0x131 then 0x69 else if c = 0xF6 then 0x6F else if c = 0xE7 then 0x63
      else c)"

text \<open>
  The folding table as the specification words it, one substitution per letter form:
  the four forms of I to i, and both cases of U/O/C/G/S with diacritic to the base letter.
\<close>

definition foldTurkish :: "code_unit \<Rightarrow> code_unit" where
  "foldTurkish c =
     (if c = 0x130 \<or> c = 0x49 \<or> c = 0x131 \<or> c = 0x69 then 0x69
      else if c = 0xDC \<or> c = 0xFC then 0x75
      else if c = 0xD6 \<or> c = 0xF6 then 0x6F
      else if c = 0xC7 \<or> c = 0xE7 then 0x63
      else if c = 0x11E \<or> c = 0x11F then 0x67
      else if c = 0x15E \<or> c = 0x15F then 0x73
      else c)"


text \<open>The three spellings of the specification's example, as code units.\<close>

definition Istanbul_dotted :: jstring where
  "Istanbul_dotted = [0x130, 0x73, 0x74, 0x61, 0x6E, 0x62, 0x75, 0x6C]"

definition istanbul_lower :: jstring where
  "istanbul_lower = [0x69, 0x73, 0x74, 0x61, 0x6E, 0x62, 0x75, 0x6C]"

definition ISTANBUL_dotted :: jstring where
  "ISTANBUL_dotted = [0x130, 0x53, 0x54, 0x41, 0x4E, 0x42, 0x55, 0x4C]"

section \<open>Records and the query pipeline (App.tsx)\<close>

record YerlesimYeri =
  il :: jstring
  ilce :: jstring
  belediye :: jstring
  mahalle :: jstring
  durum :: jstring

text \<open>The \<^verbatim>\<open>filters\<close> state object: one string per key, in the key order of its initial value.\<close>

record Filters =
  il_f :: jstring
  ilce_f :: jstring
  belediye_f :: jstring
  mahalle_f :: jstring
  durum_f :: jstring

datatype key = Il | Ilce | Belediye | Mahalle | Durum

text \<open>\<^verbatim>\<open>item[k]\<close> and \<^verbatim>\<open>filters[k]\<close>.\<close>

fun get_field :: "key \<Rightarrow> YerlesimYeri \<Rightarrow> jstring" where
  "get_field Il item = il item"
| "get_field Ilce item = ilce item"
| "get_field Belediye item = belediye item"
| "get_field Mahalle item = mahalle item"
| "get_field Durum item = durum item"

fun get_filter :: "key \<Rightarrow> Filters \<Rightarrow> jstring" where
  "get_filter Il fs = il_f fs"
| "get_filter Ilce fs = ilce_f fs"
| "get_filter Belediye fs = belediye_f fs"
| "get_filter Mahalle fs = mahalle_f fs"
| "get_filter Durum fs = durum_f fs"

text \<open>\<^verbatim>\<open>{ ...prev, [key]: value }\<close> of \<^verbatim>\<open>handleFilterChange\<close>.\<close>

fun set_filter :: "key \<Rightarrow> jstring \<Rightarrow> Filters \<Rightarrow> Filters" where
  "set_filter Il v fs = fs\<lparr>il_f := v\<rparr>"
| "set_filter Ilce v fs = fs\<lparr>ilce_f := v\<rparr>"
| "set_filter Belediye v fs = fs\<lparr>belediye_f := v\<rparr>"
| "set_filter Mahalle v fs = fs\<lparr>mahalle_f := v\<rparr>"
| "set_filter Durum v fs = fs\<lparr>durum_f := v\<rparr>"

definition no_filters :: Filters where
  "no_filters = \<lparr>il_f = [], ilce_f = [], belediye_f = [], mahalle_f = [], durum_f = []\<rparr>"

text \<open>
  Sample strings and records for evaluation: Izmir (with dotted capital I), Cesme (with
  cedillas), its plain ASCII spelling, Ankara, Ayas, Ilica and Kirsal.
\<close>

definition s_Izmir :: jstring where "s_Izmir = [0x130, 0x7A, 0x6D, 0x69, 0x72]"
definition s_Cesme :: jstring where "s_Cesme = [0xC7, 0x65, 0x15F, 0x6D, 0x65]"
definition s_cesme :: jstring where "s_cesme = [0x63, 0x65, 0x73, 0x6D, 0x65]"
definition s_Ankara :: jstring where "s_Ankara = [0x41, 0x6E, 0x6B, 0x61, 0x72, 0x61]"
definition s_Ayas :: jstring where "s_Ayas = [0x41, 0x79, 0x61, 0x15F]"
definition s_Ilica :: jstring where "s_Ilica = [0x49, 0x6C, 0x131, 0x63, 0x61]"
definition s_Kirsal :: jstring where "s_Kirsal = [0x4B, 0x131, 0x72, 0x73, 0x61, 0x6C]"

definition rec_cesme :: YerlesimYeri where
  "rec_cesme =
     \<lparr>il = s_Izmir, ilce = s_Cesme, belediye = s_Cesme, mahalle = s_Ilica, durum = s_Kirsal\<rparr>"

definition rec_ayas :: YerlesimYeri where
  "rec_ayas =
     \<lparr>il = s_Ankara, ilce = s_Ayas, belediye = s_Ayas, mahalle = s_Ilica, durum = s_Kirsal\<rparr>"

definition s_lic :: jstring where "s_lic = [0x6C, 0x131, 0x63]"

definition f_ankara :: Filters where "f_ankara = set_filter Il s_Ankara no_filters"
definition f_lic :: Filters where "f_lic = set_filter Mahalle s_lic no_filters"

subsection \<open>Global search\<close>

definition searchedData ::
  "lowercasing \<Rightarrow> jstring \<Rightarrow> YerlesimYeri list \<Rightarrow> YerlesimYeri list" where
  "searchedData lc deferredSearchTerm yerlesimVerileri =
     (if deferredSearchTerm = [] then yerlesimVerileri
      else
        let normalizedQuery = normalizeTurkish lc deferredSearchTerm
        in filter (\<lambda>item.
             js_includes (normalizeTurkish lc (il item)) normalizedQuery \<or>
             js_includes (normalizeTurkish lc (ilce item)) normalizedQuery \<or>
             js_includes (normalizeTurkish lc (belediye item)) normalizedQuery \<or>
             js_includes (normalizeTurkish lc (mahalle item)) normalizedQuery \<or>
             js_includes (normalizeTurkish lc (durum item)) normalizedQuery)
           yerlesimVerileri)"

subsection \<open>Column filters\<close>

definition filteredData ::
  "lowercasing \<Rightarrow> YerlesimYeri list \<Rightarrow> Filters \<Rightarrow> YerlesimYeri list" where
  "filteredData lc searched fs =
     filter (\<lambda>item.
       (il_f fs = [] \<or> il item = il_f fs) \<and>
       (ilce_f fs = [] \<or> ilce item = ilce_f fs) \<and>
       (belediye_f fs = [] \<or> belediye item = belediye_f fs) \<and>
       (mahalle_f fs = [] \<or>
          js_includes (normalizeTurkish lc (mahalle item)) (normalizeTurkish lc (mahalle_f fs))) \<and>
       (durum_f fs = [] \<or> durum item = durum_f fs))
     searched"

text \<open>The two stages as \<^verbatim>\<open>App\<close> chains them: the filters run on the output of the search.\<close>

definition pipeline ::
  "lowercasing \<Rightarrow> jstring \<Rightarrow> Filters \<Rightarrow> YerlesimYeri list \<Rightarrow> YerlesimYeri list" where
  "pipeline lc term fs yerlesimVerileri =
     filteredData lc (searchedData lc term yerlesimVerileri) fs"

subsection \<open>Dropdown options\<close>

text \<open>
  \<^verbatim>\<open>Object.entries\<close> of the filters object, and of its copy after \<^verbatim>\<open>delete otherFilters[key]\<close>.
\<close>

definition entries :: "Filters \<Rightarrow> (key \<times> jstring) list" where
  "entries fs =
     [(Il, il_f fs), (Ilce, ilce_f fs), (Belediye, belediye_f fs),
      (Mahalle, mahalle_f fs), (Durum, durum_f fs)]"

definition otherFilters :: "Filters \<Rightarrow> key \<Rightarrow> (key \<times> jstring) list" where
  "otherFilters fs k = filter (\<lambda>(k', v). k' \<noteq> k) (entries fs)"

text \<open>The callback of \<^verbatim>\<open>every\<close>, on one entry \<^verbatim>\<open>[k, v]\<close>.\<close>

definition entry_ok :: "lowercasing \<Rightarrow> YerlesimYeri \<Rightarrow> key \<times> jstring \<Rightarrow> bool" where
  "entry_ok lc item =
     (\<lambda>(k, v).
        if v = [] then True
        else if k = Mahalle then
          js_includes (normalizeTurkish lc (mahalle item)) (normalizeTurkish lc v)
        else get_field k item = v)"

definition dataForOptions ::
  "lowercasing \<Rightarrow> YerlesimYeri list \<Rightarrow> Filters \<Rightarrow> key \<Rightarrow> YerlesimYeri list" where
  "dataForOptions lc searched fs k =
     filter (\<lambda>item. list_all (entry_ok lc item) (otherFilters fs k)) searched"

text \<open>
  \<^verbatim>\<open>Array.from(new Set(xs))\<close>: the values of \<open>xs\<close> in the order of their first occurrence.
\<close>

fun set_add :: "'a list \<Rightarrow> 'a list \<Rightarrow> 'a list" where
  "set_add acc [] = acc"
| "set_add acc (x # xs) = set_add (if x \<in> set acc then acc else acc @ [x]) xs"

definition uniqueValues :: "'a list \<Rightarrow> 'a list" where
  "uniqueValues xs = set_add [] xs"

text \<open>
  \<^verbatim>\<open>Array.prototype.sort\<close> with a comparator. \<^verbatim>\<open>localeCompare(b, 'tr')\<close> is a collation of the
  platform and is a parameter \<open>cmp\<close> here (negative, zero or positive). For a consistent
  comparator the language fixes the result: the stable sorted arrangement, which insertion
  from the right computes.
\<close>

fun insert_sorted :: "('a \<Rightarrow> 'a \<Rightarrow> int) \<Rightarrow> 'a \<Rightarrow> 'a list \<Rightarrow> 'a list" where
  "insert_sorted cmp x [] = [x]"
| "insert_sorted cmp x (y # ys) =
     (if cmp x y \<le> 0 then x # y # ys else y # insert_sorted cmp x ys)"

definition sort_js :: "('a \<Rightarrow> 'a \<Rightarrow> int) \<Rightarrow> 'a list \<Rightarrow> 'a list" where
  "sort_js cmp xs = foldr (insert_sorted cmp) xs []"

definition getOptions ::
  "lowercasing \<Rightarrow> (jstring \<Rightarrow> jstring \<Rightarrow> int) \<Rightarrow> YerlesimYeri list \<Rightarrow> Filters \<Rightarrow> key \<Rightarrow>
     jstring list" where
  "getOptions lc localeCompare searched fs k =
     sort_js localeCompare
       (filter (\<lambda>val. val \<noteq> [])
         (uniqueValues (map (get_field k) (dataForOptions lc searched fs k))))"

text \<open>
  What the specification calls a satisfied constraint of one field: no constraint, or
  equality of the raw value, or for \<open>mahalle\<close> the normalized constraint being a substring
  of the normalized value.
\<close>

definition satisfies :: "lowercasing \<Rightarrow> Filters \<Rightarrow> key \<Rightarrow> YerlesimYeri \<Rightarrow> bool" where
  "satisfies lc fs k item =
     (get_filter k fs = [] \<or>
      (if k = Mahalle
       then sublist (normalizeTurkish lc (get_filter k fs)) (normalizeTurkish lc (mahalle item))
       else get_field k item = get_filter k fs))"

text \<open>A comparator that orders consistently: any two values compare, and transitively.\<close>

definition consistent :: "('a \<Rightarrow> 'a \<Rightarrow> int) \<Rightarrow> bool" where
  "consistent cmp =
     ((\<forall>a b. cmp a b \<le> 0 \<or> cmp b a \<le> 0) \<and>
      (\<forall>a b c. cmp a b \<le> 0 \<and> cmp b c \<le> 0 \<longrightarrow> cmp a c \<le> 0))"

text \<open>A concrete consistent comparator for evaluation: lexicographic on code units.\<close>

fun compare_units :: "jstring \<Rightarrow> jstring \<Rightarrow> int" where
  "compare_units [] [] = 0"
| "compare_units [] (b # bs) = - 1"
| "compare_units (a # as) [] = 1"
| "compare_units (a # as) (b # bs) =
     (if a < b then - 1 else if b < a then 1 else compare_units as bs)"

text \<open>
  The union of two filter states, for states that constrain different fields: each field
  takes the constraint of whichever state has one.
\<close>

definition union_filters :: "Filters \<Rightarrow> Filters \<Rightarrow> Filters" where
  "union_filters f1 f2 =
     \<lparr>il_f = (if il_f f1 = [] then il_f f2 else il_f f1),
      ilce_f = (if ilce_f f1 = [] then ilce_f f2 else ilce_f f1),
      belediye_f = (if belediye_f f1 = [] then belediye_f f2 else belediye_f f1),
      mahalle_f = (if mahalle_f f1 = [] then mahalle_f f2 else mahalle_f f1),
      durum_f = (if durum_f f1 = [] then durum_f f2 else durum_f f1)\<rparr>"

definition disjoint_filters :: "Filters \<Rightarrow> Filters \<Rightarrow> bool" where
  "disjoint_filters f1 f2 = (\<forall>k. get_filter k f1 = [] \<or> get_filter k f2 = [])"

subsection \<open>Pagination\<close>

definition ITEMS_PER_PAGE :: int where
  "ITEMS_PER_PAGE = 50"

text \<open>\<^verbatim>\<open>Math.ceil(filteredData.length / ITEMS_PER_PAGE)\<close>.\<close>

definition totalPages :: "'a list \<Rightarrow> int" where
  "totalPages filtered = \<lceil>real (length filtered) / real_of_int ITEMS_PER_PAGE\<rceil>"

text \<open>
  \<^verbatim>\<open>Array.prototype.slice(start, end)\<close> on integers: a negative index counts from the end,
  both indices are clamped to the array, and an empty range gives the empty array.
\<close>

definition slice :: "'a list \<Rightarrow> int \<Rightarrow> int \<Rightarrow> 'a list" where
  "slice xs start finish =
     (let len = int (length xs);
          k = (if start < 0 then max (len + start) 0 else min start len);
          final = (if finish < 0 then max (len + finish) 0 else min finish len)
      in take (nat (final - k)) (drop (nat k) xs))"

definition currentData :: "'a list \<Rightarrow> int \<Rightarrow> 'a list" where
  "currentData filtered currentPage =
     (let startIndex = (currentPage - 1) * ITEMS_PER_PAGE
      in slice filtered startIndex (startIndex + ITEMS_PER_PAGE))"

section \<open>The page control (components/Pagination.tsx) and the page state\<close>

datatype page_item = Num int | Ellipsis

definition getPageNumbers :: "int \<Rightarrow> int \<Rightarrow> page_item list" where
  "getPageNumbers currentPage nPages =
     (if nPages \<le> 5 then map Num [1..nPages]
      else
        let startPage0 = max 2 (currentPage - 1);
            endPage0 = min (nPages - 1) (currentPage + 1);
            endPage = (if currentPage \<le> 3 then 4 else endPage0);
            startPage =
              (if currentPage \<le> 3 then startPage0
               else if currentPage \<ge> nPages - 2 then nPages - 3 else startPage0)
        in [Num 1] @ (if startPage > 2 then [Ellipsis] else []) @
           map Num [startPage..endPage] @
           (if endPage < nPages - 1 then [Ellipsis] else []) @ [Num nPages])"

text \<open>
  The controls the component renders. \<open>Pagination currentPage nPages ctl\<close> is the page that
  a click on \<open>ctl\<close> passes to \<^verbatim>\<open>onPageChange\<close>, or \<open>None\<close> when the click has no handler to
  run: the component renders nothing for \<open>nPages \<le> 1\<close>, the previous button is disabled on
  page 1, the next button on the last page, and only the listed page numbers have a button.
\<close>

datatype control = Prev | Page int | Next

definition Pagination :: "int \<Rightarrow> int \<Rightarrow> control \<Rightarrow> int option" where
  "Pagination currentPage nPages ctl =
     (if nPages \<le> 1 then None
      else case ctl of
        Prev \<Rightarrow> if currentPage = 1 then None else Some (currentPage - 1)
      | Page p \<Rightarrow> if Num p \<in> set (getPageNumbers currentPage nPages) then Some p else None
      | Next \<Rightarrow> if currentPage = nPages then None else Some (currentPage + 1))"

text \<open>
  The state of \<^verbatim>\<open>App\<close> that the pipeline reads. \<open>deferredSearchTerm\<close> is the value of
  \<^verbatim>\<open>useDeferredValue(searchTerm)\<close>: it keeps its old value when the term changes and takes the
  term's value in a later render. While \<open>loading\<close> holds the component renders only a
  spinner, so no input or page control can fire.
\<close>

record app =
  yerlesimVerileri :: "YerlesimYeri list"
  loading :: bool
  searchTerm :: jstring
  deferredSearchTerm :: jstring
  filters :: Filters
  currentPage :: int

definition initial :: app where
  "initial =
     \<lparr>yerlesimVerileri = [], loading = True, searchTerm = [], deferredSearchTerm = [],
      filters = no_filters, currentPage = 1\<rparr>"

text \<open>\<^verbatim>\<open>totalPages\<close> as \<^verbatim>\<open>App\<close> computes it: from the deferred search term.\<close>

definition pages :: "lowercasing \<Rightarrow> app \<Rightarrow> int" where
  "pages lc s =
     totalPages (pipeline lc (deferredSearchTerm s) (filters s) (yerlesimVerileri s))"

datatype event =
    Loaded "YerlesimYeri list"
  | SearchInput jstring
  | Deferred
  | FilterChange key jstring
  | Reset
  | Click control

text \<open>
  One event with the effects it triggers. The effect with dependencies
  \<^verbatim>\<open>[searchTerm, filters]\<close> runs \<^verbatim>\<open>setCurrentPage(1)\<close> after a render in which either changed:
  a new search term, or any \<^verbatim>\<open>setFilters\<close> (it always builds a new object). \<open>Deferred\<close> is the
  later render in which the deferred search term takes the value of the search term; it
  runs no effect, since neither dependency changes.
\<close>

fun step :: "lowercasing \<Rightarrow> event \<Rightarrow> app \<Rightarrow> app" where
  "step lc (Loaded d) s =
     (if loading s then s\<lparr>yerlesimVerileri := d, loading := False\<rparr> else s)"
| "step lc (SearchInput t) s =
     (if loading s \<or> t = searchTerm s then s
      else s\<lparr>searchTerm := t, currentPage := 1\<rparr>)"
| "step lc Deferred s = s\<lparr>deferredSearchTerm := searchTerm s\<rparr>"
| "step lc (FilterChange k v) s =
     (if loading s then s
      else s\<lparr>filters := set_filter k v (filters s), currentPage := 1\<rparr>)"
| "step lc Reset s =
     (if loading s then s
      else s\<lparr>searchTerm := [], filters := no_filters, currentPage := 1\<rparr>)"
| "step lc (Click ctl) s =
     (if loading s then s
      else case Pagination (currentPage s) (pages lc s) ctl of
        None \<Rightarrow> s
      | Some p \<Rightarrow> s\<lparr>currentPage := p\<rparr>)"

inductive reachable :: "lowercasing \<Rightarrow> app \<Rightarrow> bool" for lc :: lowercasing where
  reach_initial: "reachable lc initial"
| reach_step: "reachable lc s \<Longrightarrow> reachable lc (step lc e s)"

text \<open>A sequence of events, run from a state.\<close>

definition run :: "lowercasing \<Rightarrow> event list \<Rightarrow> app \<Rightarrow> app" where
  "run lc es s = foldl (\<lambda>s e. step lc e s) s es"

text \<open>
  Sample data of 150 records, 60 of them in Cesme, and the state after loading them, typing
  the query, clicking page number 3 while the deferred term still lags, and the later render.
\<close>

definition sample_data :: "YerlesimYeri list" where
  "sample_data = replicate 60 rec_cesme @ replicate 90 rec_ayas"

definition lagging_events :: "event list" where
  "lagging_events = [Loaded sample_data, SearchInput s_cesme, Click (Page 3), Deferred]"

text \<open>Clamping a requested page to the interval from 1 to \<open>nPages\<close>.\<close>

definition clamp :: "int \<Rightarrow> int \<Rightarrow> int" where
  "clamp nPages p = max 1 (min nPages p)"

section \<open>Properties\<close>

subsection \<open>The normalizer\<close>

lemma toLower_unit_idem: "toLower_unit (toLower_unit c) = toLower_unit c"
proof -
  let ?A = "0x41 \<le> c \<and> c \<le> 0x5A"
  let ?B = "0xC0 \<le> c \<and> c \<le> 0xDE \<and> c \<noteq> 0xD7"
  let ?D = "(0x100 \<le> c \<and> c \<le> 0x137 \<or> 0x14A \<le> c \<and> c \<le> 0x177) \<and> even c"
  let ?E = "(0x139 \<le> c \<and> c \<le> 0x148 \<or> 0x179 \<le> c \<and> c \<le> 0x17E) \<and> odd c"
  show ?thesis
  proof (cases ?A)
    case True
    then have "toLower_unit c = c + 32" by (simp add: toLower_unit_def)
    moreover from True have "toLower_unit (c + 32) = c + 32" by (simp add: toLower_unit_def)
    ultimately show ?thesis by simp
  next
    case nA: False
    show ?thesis
    proof (cases ?B)
      case True
      with nA have "toLower_unit c = c + 32" by (simp add: toLower_unit_def)
      moreover from True have "toLower_unit (c + 32) = c + 32" by (simp add: toLower_unit_def)
      ultimately show ?thesis by simp
    next
      case nB: False
      show ?thesis
      proof (cases "c = 0x130")
        case True
        then show ?thesis by (simp add: toLower_unit_def)
      next
        case nC: False
        show ?thesis
        proof (cases ?D)
          case True
          with nA nB nC have "toLower_unit c = c + 1" by (simp add: toLower_unit_def)
          moreover from True have "toLower_unit (c + 1) = c + 1"
            by (auto simp add: toLower_unit_def)
          ultimately show ?thesis by simp
        next
          case nD: False
          show ?thesis
          proof (cases ?E)
            case True
            with nA nB nC nD have "toLower_unit c = c + 1" by (simp add: toLower_unit_def)
            moreover from True have "toLower_unit (c + 1) = c + 1"
              by (auto simp add: toLower_unit_def)
            ultimately show ?thesis by simp
          next
            case nE: False
            show ?thesis
            proof (cases "c = 0x178")
              case True
              then show ?thesis by (simp add: toLower_unit_def)
            next
              case False
              with nA nB nC nD nE have "toLower_unit c = c" by (simp add: toLower_unit_def)
              then show ?thesis by simp
            qed
          qed
        qed
      qed
    qed
  qed
qed

lemma toLower_unit_never:
  "toLower_unit c \<noteq> 0x130" "toLower_unit c \<noteq> 0x49" "toLower_unit c \<noteq> 0xDC"
  "toLower_unit c \<noteq> 0xD6" "toLower_unit c \<noteq> 0xC7" "toLower_unit c \<noteq> 0x11E"
  "toLower_unit c \<noteq> 0x15E"
proof -
  have idem: "toLower_unit (toLower_unit c) = toLower_unit c"
    by (rule toLower_unit_idem)
  have up: "toLower_unit 0x130 \<noteq> 0x130" "toLower_unit 0x49 \<noteq> 0x49" "toLower_unit 0xDC \<noteq> 0xDC"
    "toLower_unit 0xD6 \<noteq> 0xD6" "toLower_unit 0xC7 \<noteq> 0xC7" "toLower_unit 0x11E \<noteq> 0x11E"
    "toLower_unit 0x15E \<noteq> 0x15E"
    by (simp_all add: toLower_unit_def)
  show "toLower_unit c \<noteq> 0x130" using idem up(1) by metis
  show "toLower_unit c \<noteq> 0x49" using idem up(2) by metis
  show "toLower_unit c \<noteq> 0xDC" using idem up(3) by metis
  show "toLower_unit c \<noteq> 0xD6" using idem up(4) by metis
  show "toLower_unit c \<noteq> 0xC7" using idem up(5) by metis
  show "toLower_unit c \<noteq> 0x11E" using idem up(6) by metis
  show "toLower_unit c \<noteq> 0x15E" using idem up(7) by metis
qed

lemma tr_lower_unit_never:
  "tr_lower_unit c \<noteq> 0x130" "tr_lower_unit c \<noteq> 0x49" "tr_lower_unit c \<noteq> 0xDC"
  "tr_lower_unit c \<noteq> 0xD6" "tr_lower_unit c \<noteq> 0xC7" "tr_lower_unit c \<noteq> 0x11E"
  "tr_lower_unit c \<noteq> 0x15E"
  by (simp_all add: tr_lower_unit_def toLower_unit_never)

lemma tr_lower_unit_idem: "tr_lower_unit (tr_lower_unit c) = tr_lower_unit c"
proof -
  have "toLower_unit 0x69 = 0x69" "toLower_unit 0x131 = 0x131"
    by (simp_all add: toLower_unit_def)
  then show ?thesis
    by (simp add: tr_lower_unit_def toLower_unit_never toLower_unit_idem)
qed

lemma tr_lower_unit_ascii: "0x61 \<le> c \<Longrightarrow> c \<le> 0x7A \<Longrightarrow> tr_lower_unit c = c"
  by (simp add: tr_lower_unit_def toLower_unit_def)

lemma turkish_rules_tr_lower: "turkish_rules tr_lower"
  by (simp add: turkish_rules_def tr_lower_def)

lemma lowercase_idempotent_tr_lower: "lowercase_idempotent tr_lower"
  by (simp add: lowercase_idempotent_def tr_lower_def tr_lower_unit_idem)

lemma lowercase_closed_tr_lower: "lowercase_closed tr_lower"
  unfolding lowercase_closed_def tr_lower_def
proof (intro allI impI)
  fix s :: jstring and i :: nat and c :: code_unit
  assume a: "map tr_lower_unit s = s \<and> i < length s \<and> 0x61 \<le> c \<and> c \<le> 0x7A"
  then have "map tr_lower_unit (s[i := c]) = (map tr_lower_unit s)[i := tr_lower_unit c]"
    by (simp add: map_update)
  with a show "map tr_lower_unit (s[i := c]) = s[i := c]"
    by (simp add: tr_lower_unit_ascii)
qed

lemma replace_chain:
  "replace_all 0xE7 0x63 (replace_all 0xF6 0x6F (replace_all 0x131 0x69
     (replace_all 0x15F 0x73 (replace_all 0xFC 0x75 (replace_all 0x11F 0x67 s))))) =
   map replacements s"
  by (simp add: replace_all_def replacements_def)

lemma normalizeTurkish_map:
  "normalizeTurkish lc text = (if text = [] then [] else map replacements (lc text))"
  by (simp add: normalizeTurkish_def replace_chain Let_def)

lemma replacements_idem: "replacements (replacements c) = replacements c"
  by (simp add: replacements_def)

lemma replacements_ascii:
  "replacements c = c \<or> 0x61 \<le> replacements c \<and> replacements c \<le> 0x7A"
  by (simp add: replacements_def)

lemma replacements_foldTurkish:
  "replacements (tr_lower_unit c) = foldTurkish (tr_lower_unit c)"
  using tr_lower_unit_never [of c] by (simp add: replacements_def foldTurkish_def)

lemma normalizeTurkish_latin:
  assumes "turkish_rules lc" "\<forall>c\<in>set text. c \<le> 0x17F"
  shows "normalizeTurkish lc text = map foldTurkish (map tr_lower_unit text)"
proof -
  from assms have "lc text = map tr_lower_unit text"
    unfolding turkish_rules_def by blast
  then show ?thesis
    by (simp add: normalizeTurkish_map replacements_foldTurkish)
qed



lemma istanbul_latin:
  "\<forall>c\<in>set Istanbul_dotted. c \<le> 0x17F" "\<forall>c\<in>set istanbul_lower. c \<le> 0x17F"
  "\<forall>c\<in>set ISTANBUL_dotted. c \<le> 0x17F"
  by (simp_all add: Istanbul_dotted_def istanbul_lower_def ISTANBUL_dotted_def)

lemma istanbul_values:
  "map foldTurkish (map tr_lower_unit Istanbul_dotted) = istanbul_lower"
  "map foldTurkish (map tr_lower_unit istanbul_lower) = istanbul_lower"
  "map foldTurkish (map tr_lower_unit ISTANBUL_dotted) = istanbul_lower"
  by (simp_all add: Istanbul_dotted_def istanbul_lower_def ISTANBUL_dotted_def foldTurkish_def
      tr_lower_unit_def toLower_unit_def)



lemma closed_replacements:
  assumes "lowercase_closed lc"
  shows "lc (p @ s) = p @ s \<Longrightarrow> lc (p @ map replacements s) = p @ map replacements s"
proof (induction s arbitrary: p)
  case Nil
  then show ?case by simp
next
  case (Cons x xs)
  have one: "lc (p @ replacements x # xs) = p @ replacements x # xs"
  proof (cases "replacements x = x")
    case True
    with Cons.prems show ?thesis by simp
  next
    case False
    with replacements_ascii [of x]
    have "0x61 \<le> replacements x \<and> replacements x \<le> 0x7A" by blast
    moreover have "length p < length (p @ x # xs)" by simp
    ultimately have "lc ((p @ x # xs)[length p := replacements x]) =
        (p @ x # xs)[length p := replacements x]"
      using assms Cons.prems unfolding lowercase_closed_def by blast
    then show ?thesis by simp
  qed
  then have "lc ((p @ [replacements x]) @ xs) = (p @ [replacements x]) @ xs" by simp
  then have "lc ((p @ [replacements x]) @ map replacements xs) =
      (p @ [replacements x]) @ map replacements xs"
    by (rule Cons.IH)
  then show ?case by simp
qed

text \<open>
  C8: \<open>normalizeTurkish\<close> is a function of its argument alone; the empty string normalizes to
  the empty string; and normalizing twice gives the same string as normalizing once, for
  every string, when lowercasing is idempotent and leaves a lowercase string lowercase
  after a code unit is replaced by a small ASCII letter.
\<close>

theorem normalizeTurkish_idempotent:
  "normalizeTurkish lc [] = [] \<and>
   (lowercase_idempotent lc \<and> lowercase_closed lc \<longrightarrow>
      normalizeTurkish lc (normalizeTurkish lc x) = normalizeTurkish lc x)"
proof -
  have empty: "normalizeTurkish lc [] = []"
    by (simp add: normalizeTurkish_map)
  have "normalizeTurkish lc (normalizeTurkish lc x) = normalizeTurkish lc x"
    if idem: "lowercase_idempotent lc" and closed: "lowercase_closed lc"
  proof (cases "x = []")
    case True
    then show ?thesis by (simp add: normalizeTurkish_map)
  next
    case False
    let ?y = "map replacements (lc x)"
    from idem have "lc ([] @ lc x) = [] @ lc x"
      by (simp add: lowercase_idempotent_def)
    from closed_replacements [OF closed this] have "lc ?y = ?y" by simp
    then have "normalizeTurkish lc ?y = ?y"
      by (simp add: normalizeTurkish_map replacements_idem)
    with False show ?thesis by (simp add: normalizeTurkish_map)
  qed
  with empty show ?thesis by blast
qed

theorem normalizeTurkish_idempotent_witness:
  "lowercase_idempotent tr_lower \<and> lowercase_closed tr_lower \<and>
   normalizeTurkish tr_lower (normalizeTurkish tr_lower ISTANBUL_dotted) =
     normalizeTurkish tr_lower ISTANBUL_dotted \<and>
   normalizeTurkish tr_lower ISTANBUL_dotted = istanbul_lower"
proof -
  have "normalizeTurkish tr_lower ISTANBUL_dotted = istanbul_lower"
    by (rule trans [OF normalizeTurkish_latin [OF turkish_rules_tr_lower istanbul_latin(3)]
          istanbul_values(3)])
  then show ?thesis
    using normalizeTurkish_idempotent [of tr_lower ISTANBUL_dotted]
      lowercase_idempotent_tr_lower lowercase_closed_tr_lower
    by blast
qed

subsection \<open>Search and column filters\<close>

lemma js_includes_sublist: "js_includes s q \<longleftrightarrow> sublist q s"
  by (induction s) (simp_all add: sublist_Cons_right)

lemma ex_key: "(\<exists>k. P k) \<longleftrightarrow> P Il \<or> P Ilce \<or> P Belediye \<or> P Mahalle \<or> P Durum"
  by (metis key.exhaust)

lemma all_key: "(\<forall>k. P k) \<longleftrightarrow> P Il \<and> P Ilce \<and> P Belediye \<and> P Mahalle \<and> P Durum"
  by (metis key.exhaust)

lemma normalize_samples:
  "normalizeTurkish tr_lower s_Izmir = [0x69, 0x7A, 0x6D, 0x69, 0x72]"
  "normalizeTurkish tr_lower s_Cesme = s_cesme"
  "normalizeTurkish tr_lower s_cesme = s_cesme"
  "normalizeTurkish tr_lower s_Ankara = [0x61, 0x6E, 0x6B, 0x61, 0x72, 0x61]"
  "normalizeTurkish tr_lower s_Ayas = [0x61, 0x79, 0x61, 0x73]"
  "normalizeTurkish tr_lower s_Ilica = [0x69, 0x6C, 0x69, 0x63, 0x61]"
  "normalizeTurkish tr_lower s_Kirsal = [0x6B, 0x69, 0x72, 0x73, 0x61, 0x6C]"
  by (simp_all add: normalizeTurkish_def tr_lower_def tr_lower_unit_def toLower_unit_def
      replace_all_def s_Izmir_def s_Cesme_def s_cesme_def s_Ankara_def s_Ayas_def s_Ilica_def
      s_Kirsal_def)

lemma sample_filters:
  "f_ankara = \<lparr>il_f = s_Ankara, ilce_f = [], belediye_f = [], mahalle_f = [], durum_f = []\<rparr>"
  "f_lic = \<lparr>il_f = [], ilce_f = [], belediye_f = [], mahalle_f = s_lic, durum_f = []\<rparr>"
  by (simp_all add: f_ankara_def f_lic_def no_filters_def)

lemma sample_nonempty: "s_Ankara \<noteq> []" "s_lic \<noteq> []" "s_cesme \<noteq> []" "s_Izmir \<noteq> s_Ankara"
  by (simp_all add: s_Ankara_def s_lic_def s_cesme_def s_Izmir_def)

lemma normalize_lic: "normalizeTurkish tr_lower s_lic = [0x6C, 0x69, 0x63]"
  by (simp add: normalizeTurkish_def tr_lower_def tr_lower_unit_def toLower_unit_def replace_all_def
      s_lic_def)

lemma filtered_samples:
  "filteredData tr_lower [rec_cesme, rec_ayas] f_ankara = [rec_ayas]"
  "filteredData tr_lower [rec_cesme, rec_ayas] f_lic = [rec_cesme, rec_ayas]"
  "filteredData tr_lower [rec_ayas] f_lic = [rec_ayas]"
  "filteredData tr_lower [rec_cesme] f_lic = [rec_cesme]"
  "filteredData tr_lower [rec_cesme] f_ankara = []"
  by (simp_all add: filteredData_def sample_filters sample_nonempty rec_cesme_def rec_ayas_def
      normalize_samples normalize_lic)

lemma searched_sample: "searchedData tr_lower s_cesme [rec_ayas, rec_cesme, rec_ayas] = [rec_cesme]"
  by (simp add: searchedData_def Let_def sample_nonempty rec_ayas_def rec_cesme_def
      normalize_samples) (simp add: s_cesme_def)

text \<open>
  C2: with an empty query the search returns the list unchanged; otherwise it returns the
  list filtered, in order, by the condition that the normalized query is a substring of the
  normalized value of at least one of the five fields.
\<close>

theorem searchedData_spec:
  "(q = [] \<longrightarrow> searchedData lc q D = D) \<and>
   (q \<noteq> [] \<longrightarrow>
      searchedData lc q D =
        filter (\<lambda>r. \<exists>k. sublist (normalizeTurkish lc q) (normalizeTurkish lc (get_field k r))) D)"
  by (simp add: searchedData_def Let_def js_includes_sublist ex_key)

theorem searchedData_spec_witness:
  "s_cesme \<noteq> [] \<and>
   searchedData tr_lower s_cesme [rec_ayas, rec_cesme, rec_ayas] =
     filter (\<lambda>r. \<exists>k. sublist (normalizeTurkish tr_lower s_cesme) (normalizeTurkish tr_lower (get_field k r)))
       [rec_ayas, rec_cesme, rec_ayas] \<and>
   searchedData tr_lower s_cesme [rec_ayas, rec_cesme, rec_ayas] = [rec_cesme] \<and>
   searchedData tr_lower [] [rec_ayas, rec_cesme, rec_ayas] = [rec_ayas, rec_cesme, rec_ayas]"
proof -
  have ne: "s_cesme \<noteq> []" by (simp add: s_cesme_def)
  have ev: "searchedData tr_lower s_cesme [rec_ayas, rec_cesme, rec_ayas] = [rec_cesme]"
    by (simp add: searchedData_def Let_def ne rec_ayas_def rec_cesme_def normalize_samples)
       (simp add: s_cesme_def)
  show ?thesis
    using searchedData_spec [of s_cesme tr_lower "[rec_ayas, rec_cesme, rec_ayas]"]
      searchedData_spec [of "[]" tr_lower "[rec_ayas, rec_cesme, rec_ayas]"] ne ev
    by simp
qed


lemma filteredData_satisfies:
  "filteredData lc S fs = filter (\<lambda>item. \<forall>k. satisfies lc fs k item) S"
  by (simp add: filteredData_def all_key satisfies_def js_includes_sublist)

text \<open>
  C3: the column filters keep exactly the records that satisfy every field's constraint,
  an empty constraint being satisfied by every record, the constraints of \<open>il\<close>, \<open>ilce\<close>,
  \<open>belediye\<close> and \<open>durum\<close> by equality of the raw value and the constraint of \<open>mahalle\<close> by
  normalized substring containment; and the filters run on the output of the search.
\<close>

theorem filteredData_spec:
  "filteredData lc S fs = filter (\<lambda>item. \<forall>k. satisfies lc fs k item) S \<and>
   pipeline lc q fs D = filter (\<lambda>item. \<forall>k. satisfies lc fs k item) (searchedData lc q D) \<and>
   (item \<in> set (pipeline lc q fs D) \<longleftrightarrow>
      item \<in> set (searchedData lc q D) \<and>
      (\<forall>k. get_filter k fs \<noteq> [] \<longrightarrow>
        (if k = Mahalle
         then sublist (normalizeTurkish lc (get_filter k fs)) (normalizeTurkish lc (mahalle item))
         else get_field k item = get_filter k fs)))"
proof -
  have "(\<forall>k. satisfies lc fs k item) \<longleftrightarrow>
      (\<forall>k. get_filter k fs \<noteq> [] \<longrightarrow>
        (if k = Mahalle
         then sublist (normalizeTurkish lc (get_filter k fs)) (normalizeTurkish lc (mahalle item))
         else get_field k item = get_filter k fs))"
    unfolding satisfies_def by blast
  then show ?thesis
    by (simp add: pipeline_def filteredData_satisfies)
qed

theorem filteredData_spec_witness:
  "pipeline tr_lower s_cesme f_lic [rec_ayas, rec_cesme, rec_ayas] = [rec_cesme] \<and>
   pipeline tr_lower s_cesme f_ankara [rec_ayas, rec_cesme, rec_ayas] = [] \<and>
   get_filter Il f_ankara \<noteq> [] \<and> get_field Il rec_cesme \<noteq> get_filter Il f_ankara"
proof -
  let ?D = "[rec_ayas, rec_cesme, rec_ayas]"
  have a: "pipeline tr_lower s_cesme f_lic ?D =
      filter (\<lambda>item. \<forall>k. satisfies tr_lower f_lic k item) (searchedData tr_lower s_cesme ?D)"
    using filteredData_spec [of tr_lower "[]" f_lic s_cesme ?D rec_cesme] by blast
  have b: "pipeline tr_lower s_cesme f_ankara ?D =
      filter (\<lambda>item. \<forall>k. satisfies tr_lower f_ankara k item) (searchedData tr_lower s_cesme ?D)"
    using filteredData_spec [of tr_lower "[]" f_ankara s_cesme ?D rec_cesme] by blast
  have c: "get_filter Il f_ankara \<noteq> [] \<and> get_field Il rec_cesme \<noteq> get_filter Il f_ankara"
    by (simp add: sample_filters sample_nonempty rec_cesme_def)
  from a b c show ?thesis
    by (simp add: searched_sample filteredData_satisfies [symmetric] filtered_samples)
qed

lemma otherFilters_set_filter: "otherFilters (set_filter k v fs) k = otherFilters fs k"
  by (cases k) (simp_all add: otherFilters_def entries_def)

text \<open>
  C9: the options of a field do not depend on the field's own filter value: two filter
  states that differ only there give the same option list.
\<close>

theorem getOptions_ignores_own_filter:
  "getOptions lc cmp S (set_filter k v1 fs) k = getOptions lc cmp S (set_filter k v2 fs) k"
  by (simp add: getOptions_def dataForOptions_def otherFilters_set_filter)

text \<open>
  C7: the empty filter state keeps every record, and filtering by one state and then by
  another that constrains different fields is filtering by their union.
\<close>

theorem filteredData_identity_union:
  "filteredData lc D no_filters = D \<and>
   (disjoint_filters f1 f2 \<longrightarrow>
      filteredData lc (filteredData lc D f1) f2 = filteredData lc D (union_filters f1 f2))"
proof -
  have ident: "filteredData lc D no_filters = D"
    by (simp add: filteredData_def no_filters_def)
  have union: "filteredData lc (filteredData lc D f1) f2 = filteredData lc D (union_filters f1 f2)"
    if dis: "disjoint_filters f1 f2"
  proof -
    have d: "il_f f1 = [] \<or> il_f f2 = []" "ilce_f f1 = [] \<or> ilce_f f2 = []"
      "belediye_f f1 = [] \<or> belediye_f f2 = []" "mahalle_f f1 = [] \<or> mahalle_f f2 = []"
      "durum_f f1 = [] \<or> durum_f f2 = []"
      using dis [unfolded disjoint_filters_def, THEN spec, of Il]
        dis [unfolded disjoint_filters_def, THEN spec, of Ilce]
        dis [unfolded disjoint_filters_def, THEN spec, of Belediye]
        dis [unfolded disjoint_filters_def, THEN spec, of Mahalle]
        dis [unfolded disjoint_filters_def, THEN spec, of Durum]
      by simp_all
    have "\<forall>k. satisfies lc (union_filters f1 f2) k item \<longleftrightarrow>
               satisfies lc f1 k item \<and> satisfies lc f2 k item" for item
    proof
      fix k
      show "satisfies lc (union_filters f1 f2) k item \<longleftrightarrow>
              satisfies lc f1 k item \<and> satisfies lc f2 k item"
        using d by (cases k) (auto simp: satisfies_def union_filters_def)
    qed
    then have "(\<forall>k. satisfies lc (union_filters f1 f2) k item) \<longleftrightarrow>
               (\<forall>k. satisfies lc f1 k item) \<and> (\<forall>k. satisfies lc f2 k item)" for item
      by blast
    then show ?thesis
      by (simp add: filteredData_satisfies conj_commute)
  qed
  from ident union show ?thesis by blast
qed

theorem filteredData_identity_union_witness:
  "disjoint_filters f_ankara f_lic \<and>
   filteredData tr_lower (filteredData tr_lower [rec_cesme, rec_ayas] f_ankara) f_lic =
     filteredData tr_lower [rec_cesme, rec_ayas] (union_filters f_ankara f_lic) \<and>
   filteredData tr_lower (filteredData tr_lower [rec_cesme, rec_ayas] f_ankara) f_lic = [rec_ayas] \<and>
   filteredData tr_lower [rec_cesme, rec_ayas] no_filters = [rec_cesme, rec_ayas]"
proof -
  have d: "disjoint_filters f_ankara f_lic"
    by (simp add: disjoint_filters_def all_key sample_filters)
  from d filteredData_identity_union [of tr_lower "[rec_cesme, rec_ayas]" f_ankara f_lic]
  show ?thesis
    by (simp add: filtered_samples)
qed

subsection \<open>Dropdown options\<close>

lemma set_set_add: "set (set_add acc xs) = set acc \<union> set xs"
  by (induction xs arbitrary: acc) auto

lemma distinct_set_add: "distinct acc \<Longrightarrow> distinct (set_add acc xs)"
  by (induction xs arbitrary: acc) auto

lemma set_insert_sorted: "set (insert_sorted cmp x ys) = insert x (set ys)"
  by (induction ys) auto

lemma distinct_insert_sorted:
  "distinct ys \<Longrightarrow> x \<notin> set ys \<Longrightarrow> distinct (insert_sorted cmp x ys)"
  by (induction ys) (auto simp: set_insert_sorted)

lemma set_sort_js: "set (sort_js cmp xs) = set xs"
  unfolding sort_js_def by (induction xs) (simp_all add: set_insert_sorted)

lemma distinct_sort_js: "distinct xs \<Longrightarrow> distinct (sort_js cmp xs)"
  unfolding sort_js_def
  by (induction xs) (simp_all add: distinct_insert_sorted set_sort_js [unfolded sort_js_def])

lemma sorted_insert_sorted:
  assumes "consistent cmp" and "sorted_wrt (\<lambda>a b. cmp a b \<le> 0) ys"
  shows "sorted_wrt (\<lambda>a b. cmp a b \<le> 0) (insert_sorted cmp x ys)"
  using assms(2)
proof (induction ys)
  case Nil
  then show ?case by simp
next
  case (Cons y ys)
  from assms(1) have total: "cmp a b \<le> 0 \<or> cmp b a \<le> 0" for a b
    unfolding consistent_def by blast
  from assms(1) have trans: "cmp a b \<le> 0 \<Longrightarrow> cmp b c \<le> 0 \<Longrightarrow> cmp a c \<le> 0" for a b c
    unfolding consistent_def by blast
  show ?case
  proof (cases "cmp x y \<le> 0")
    case True
    with Cons.prems trans show ?thesis by auto
  next
    case False
    with total have "cmp y x \<le> 0" by blast
    with False Cons show ?thesis by (auto simp: set_insert_sorted)
  qed
qed

lemma sorted_sort_js: "consistent cmp \<Longrightarrow> sorted_wrt (\<lambda>a b. cmp a b \<le> 0) (sort_js cmp xs)"
  unfolding sort_js_def by (induction xs) (simp_all add: sorted_insert_sorted)

lemma entry_ok_satisfies: "entry_ok lc item (k', get_filter k' fs) = satisfies lc fs k' item"
  by (simp add: entry_ok_def satisfies_def js_includes_sublist)

lemma entries_keys:
  "entries fs = map (\<lambda>k. (k, get_filter k fs)) [Il, Ilce, Belediye, Mahalle, Durum]"
  by (simp add: entries_def)

lemma UNIV_key: "set [Il, Ilce, Belediye, Mahalle, Durum] = UNIV"
proof -
  have "k \<in> set [Il, Ilce, Belediye, Mahalle, Durum]" for k
    by (cases k) simp_all
  then show ?thesis by blast
qed

lemma every_other_entry:
  "list_all (entry_ok lc item) (otherFilters fs k) \<longleftrightarrow>
   (\<forall>k'. k' \<noteq> k \<longrightarrow> satisfies lc fs k' item)"
proof -
  have "list_all (entry_ok lc item) (otherFilters fs k) \<longleftrightarrow>
      (\<forall>k'\<in>set [Il, Ilce, Belediye, Mahalle, Durum].
         k' \<noteq> k \<longrightarrow> entry_ok lc item (k', get_filter k' fs))"
    unfolding otherFilters_def entries_keys list_all_iff by auto
  then show ?thesis
    unfolding UNIV_key by (simp add: entry_ok_satisfies)
qed

lemma dataForOptions_satisfies:
  "dataForOptions lc S fs k = filter (\<lambda>item. \<forall>k'. k' \<noteq> k \<longrightarrow> satisfies lc fs k' item) S"
  by (simp add: dataForOptions_def every_other_entry)

lemma get_filter_set_filter:
  "get_filter k' (set_filter k v fs) = (if k' = k then v else get_filter k' fs)"
  by (cases k; cases k'; simp)

lemma dataForOptions_filteredData:
  "dataForOptions lc S fs k = filteredData lc S (set_filter k [] fs)"
proof -
  have "(\<forall>k'. satisfies lc (set_filter k [] fs) k' item) \<longleftrightarrow>
        (\<forall>k'. k' \<noteq> k \<longrightarrow> satisfies lc fs k' item)" for item
  proof -
    have "satisfies lc (set_filter k [] fs) k' item \<longleftrightarrow> k' = k \<or> satisfies lc fs k' item" for k'
      by (cases "k' = k") (auto simp: satisfies_def get_filter_set_filter)
    then show ?thesis by blast
  qed
  then show ?thesis
    by (simp add: dataForOptions_satisfies filteredData_satisfies)
qed

lemma compare_units_Nil_le: "compare_units [] b \<le> 0"
  by (cases b) simp_all

lemma compare_units_Cons_le:
  "compare_units (a # as) (b # bs) \<le> 0 \<longleftrightarrow> a < b \<or> (a = b \<and> compare_units as bs \<le> 0)"
  by auto

lemma compare_units_total: "compare_units a b \<le> 0 \<or> compare_units b a \<le> 0"
proof (induction a arbitrary: b)
  case Nil
  then show ?case by (simp add: compare_units_Nil_le)
next
  case (Cons x xs)
  show ?case
  proof (cases b)
    case Nil
    then show ?thesis by simp
  next
    case (Cons y ys)
    with Cons.IH [of ys] show ?thesis
      unfolding Cons compare_units_Cons_le by auto
  qed
qed

lemma compare_units_trans:
  "compare_units a b \<le> 0 \<Longrightarrow> compare_units b c \<le> 0 \<Longrightarrow> compare_units a c \<le> 0"
proof (induction a arbitrary: b c)
  case Nil
  then show ?case by (simp add: compare_units_Nil_le)
next
  case (Cons x xs)
  from Cons.prems(1) obtain y ys where b: "b = y # ys"
    by (cases b) simp_all
  from Cons.prems(2) b obtain z zs where c: "c = z # zs"
    by (cases c) simp_all
  from Cons.prems have 1: "x < y \<or> (x = y \<and> compare_units xs ys \<le> 0)"
    and 2: "y < z \<or> (y = z \<and> compare_units ys zs \<le> 0)"
    unfolding b c compare_units_Cons_le by blast+
  from 1 2 Cons.IH [of ys zs] have "x < z \<or> (x = z \<and> compare_units xs zs \<le> 0)"
    by auto
  then show ?case
    unfolding c compare_units_Cons_le .
qed

lemma consistent_compare_units: "consistent compare_units"
  unfolding consistent_def
proof (intro conjI allI impI)
  fix a b :: jstring
  show "compare_units a b \<le> 0 \<or> compare_units b a \<le> 0"
    by (rule compare_units_total)
next
  fix a b c :: jstring
  assume "compare_units a b \<le> 0 \<and> compare_units b c \<le> 0"
  then show "compare_units a c \<le> 0"
    using compare_units_trans by blast
qed

text \<open>
  C4: for every field, the option list holds exactly the non-empty values of the field over
  the records that satisfy the constraints of all other fields; it is the sorted,
  de-duplicated list of those values over the column filter run with the field's own
  constraint cleared; it has no duplicates; and it is ascending in the collation order,
  for every collation that compares consistently.
\<close>

theorem getOptions_spec:
  "set (getOptions lc cmp S fs k) =
     {v. v \<noteq> [] \<and>
         (\<exists>item\<in>set S. (\<forall>k'. k' \<noteq> k \<longrightarrow> satisfies lc fs k' item) \<and> get_field k item = v)} \<and>
   getOptions lc cmp S fs k =
     sort_js cmp (filter (\<lambda>v. v \<noteq> [])
       (uniqueValues (map (get_field k) (filteredData lc S (set_filter k [] fs))))) \<and>
   distinct (getOptions lc cmp S fs k) \<and>
   (consistent cmp \<longrightarrow> sorted_wrt (\<lambda>a b. cmp a b \<le> 0) (getOptions lc cmp S fs k))"
proof -
  have "set (getOptions lc cmp S fs k) =
     {v. v \<noteq> [] \<and>
         (\<exists>item\<in>set S. (\<forall>k'. k' \<noteq> k \<longrightarrow> satisfies lc fs k' item) \<and> get_field k item = v)}"
    by (auto simp: getOptions_def set_sort_js uniqueValues_def set_set_add
        dataForOptions_satisfies)
  moreover have "getOptions lc cmp S fs k =
     sort_js cmp (filter (\<lambda>v. v \<noteq> [])
       (uniqueValues (map (get_field k) (filteredData lc S (set_filter k [] fs)))))"
    by (simp add: getOptions_def dataForOptions_filteredData)
  moreover have "distinct (getOptions lc cmp S fs k)"
    by (simp add: getOptions_def uniqueValues_def distinct_sort_js distinct_set_add)
  moreover have "consistent cmp \<longrightarrow> sorted_wrt (\<lambda>a b. cmp a b \<le> 0) (getOptions lc cmp S fs k)"
    by (simp add: getOptions_def sorted_sort_js)
  ultimately show ?thesis by blast
qed

lemma options_sample:
  "getOptions tr_lower compare_units [rec_cesme, rec_ayas, rec_cesme] f_lic Il = [s_Ankara, s_Izmir]"
proof -
  have "dataForOptions tr_lower [rec_cesme, rec_ayas, rec_cesme] f_lic Il = [rec_cesme, rec_ayas, rec_cesme]"
    by (simp add: dataForOptions_filteredData filteredData_def sample_filters
      sample_nonempty rec_cesme_def rec_ayas_def normalize_samples normalize_lic)
  then have "getOptions tr_lower compare_units [rec_cesme, rec_ayas, rec_cesme] f_lic Il =
      sort_js compare_units [s_Izmir, s_Ankara]"
    by (simp add: getOptions_def uniqueValues_def rec_cesme_def rec_ayas_def sample_nonempty)
       (simp add: s_Izmir_def s_Ankara_def)
  also have "\<dots> = [s_Ankara, s_Izmir]"
    by (simp add: sort_js_def s_Izmir_def s_Ankara_def)
  finally show ?thesis .
qed

theorem getOptions_spec_witness:
  "consistent compare_units \<and>
   sorted_wrt (\<lambda>a b. compare_units a b \<le> 0)
     (getOptions tr_lower compare_units [rec_cesme, rec_ayas, rec_cesme] f_lic Il) \<and>
   distinct (getOptions tr_lower compare_units [rec_cesme, rec_ayas, rec_cesme] f_lic Il) \<and>
   getOptions tr_lower compare_units [rec_cesme, rec_ayas, rec_cesme] f_lic Il = [s_Ankara, s_Izmir]"
proof -
  note spec = getOptions_spec [of tr_lower compare_units "[rec_cesme, rec_ayas, rec_cesme]" f_lic Il]
  from spec consistent_compare_units
  have "sorted_wrt (\<lambda>a b. compare_units a b \<le> 0)
     (getOptions tr_lower compare_units [rec_cesme, rec_ayas, rec_cesme] f_lic Il)"
    by blast
  moreover from spec
  have "distinct (getOptions tr_lower compare_units [rec_cesme, rec_ayas, rec_cesme] f_lic Il)"
    by blast
  ultimately show ?thesis
    using consistent_compare_units options_sample by blast
qed

subsection \<open>Pagination\<close>

lemma totalPages_bounds:
  "int (length D) \<le> 50 * totalPages D" "50 * totalPages D < int (length D) + 50"
proof -
  let ?x = "real (length D) / 50"
  have tp: "totalPages D = \<lceil>?x\<rceil>"
    by (simp add: totalPages_def ITEMS_PER_PAGE_def)
  have "?x \<le> real_of_int \<lceil>?x\<rceil>" by (rule le_of_int_ceiling)
  then have "real (length D) \<le> 50 * real_of_int (totalPages D)"
    unfolding tp by linarith
  then have "real_of_int (int (length D)) \<le> real_of_int (50 * totalPages D)"
    by simp
  then show "int (length D) \<le> 50 * totalPages D"
    by (simp only: of_int_le_iff)
  have "real_of_int \<lceil>?x\<rceil> - 1 < ?x" using ceiling_correct [of ?x] by (rule conjunct1)
  then have "50 * real_of_int (totalPages D) < real (length D) + 50"
    unfolding tp by linarith
  then have "real_of_int (50 * totalPages D) < real_of_int (int (length D) + 50)"
    by simp
  then show "50 * totalPages D < int (length D) + 50"
    by (simp only: of_int_less_iff)
qed

lemma totalPages_Nil: "totalPages ([] :: 'a list) = 0"
proof -
  have "0 \<le> 50 * totalPages ([] :: 'a list)" "50 * totalPages ([] :: 'a list) < 50"
    using totalPages_bounds [of "[] :: 'a list"] by simp_all
  then show ?thesis by linarith
qed

lemma totalPages_nonneg: "0 \<le> totalPages D"
  using totalPages_bounds [of D] by linarith

lemma totalPages_replicate: "totalPages (replicate 120 x) = 3"
proof -
  have "120 \<le> 50 * totalPages (replicate 120 x)" "50 * totalPages (replicate 120 x) < 170"
    using totalPages_bounds [of "replicate 120 x"] by simp_all
  then show ?thesis by linarith
qed

lemma slice_nonneg:
  assumes "0 \<le> a" "a \<le> b"
  shows "slice xs a b = take (nat (b - a)) (drop (nat a) xs)"
proof -
  let ?len = "int (length xs)"
  from assms have s: "slice xs a b = take (nat (min b ?len - min a ?len)) (drop (nat (min a ?len)) xs)"
    by (simp add: slice_def Let_def)
  consider (beyond) "?len \<le> a" | (inside) "a < ?len" "b \<le> ?len" | (last) "a < ?len" "?len < b"
    by linarith
  then show ?thesis
  proof cases
    case beyond
    then have "length xs \<le> nat a" by linarith
    then have "drop (nat a) xs = []" by simp
    moreover from beyond assms have "min b ?len - min a ?len = 0" by simp
    ultimately show ?thesis using s by simp
  next
    case inside
    then have "min b ?len = b" "min a ?len = a" by simp_all
    with s show ?thesis by simp
  next
    case last
    then have m: "min b ?len = ?len" "min a ?len = a" by simp_all
    have "length (drop (nat a) xs) \<le> nat (?len - a)" using assms by simp
    moreover have "length (drop (nat a) xs) \<le> nat (b - a)" using assms last by simp
    ultimately show ?thesis using s m by simp
  qed
qed

lemma currentData_take_drop:
  "1 \<le> p \<Longrightarrow> currentData D p = take 50 (drop (nat ((p - 1) * 50)) D)"
  by (simp add: currentData_def ITEMS_PER_PAGE_def Let_def slice_nonneg)

lemma slice_length:
  "length (slice xs a (a + 50)) \<le> 50"
proof -
  let ?len = "int (length xs)"
  let ?k = "if a < 0 then max (?len + a) 0 else min a ?len"
  let ?f = "if a + 50 < 0 then max (?len + (a + 50)) 0 else min (a + 50) ?len"
  have "?f - ?k \<le> 50"
    by (simp add: min_def max_def)
  then have "nat (?f - ?k) \<le> 50" by linarith
  moreover have "length (slice xs a (a + 50)) \<le> nat (?f - ?k)"
    by (simp add: slice_def Let_def del: min_less_iff_conj)
  ultimately show ?thesis by linarith
qed

lemma slice_sublist: "sublist (slice xs a b) xs"
proof -
  obtain n k where "slice xs a b = take n (drop k xs)"
    unfolding slice_def Let_def by blast
  moreover have "xs = take k xs @ take n (drop k xs) @ drop n (drop k xs)"
    by (simp only: append_take_drop_id)
  then have "sublist (take n (drop k xs)) xs"
    unfolding sublist_def by blast
  ultimately show ?thesis by simp
qed

lemma offset_eq: "(p - 1) * 50 = 50 * p - (50 :: int)"
  by simp

lemma currentData_full_page:
  assumes "1 \<le> p" "p < totalPages D"
  shows "length (currentData D p) = 50"
proof -
  from assms(2) have "50 * p + 50 \<le> 50 * totalPages D" by simp
  with totalPages_bounds(2) [of D] have "50 * p - 50 + 50 < int (length D)" by linarith
  with assms(1) have "50 \<le> length D - nat (50 * p - 50)" by linarith
  with assms(1) show ?thesis by (simp add: currentData_take_drop)
qed

lemma currentData_last_page:
  assumes "1 \<le> p" "p = totalPages D"
  shows "length (currentData D p) = length D - nat ((p - 1) * 50)"
    and "0 < length (currentData D p)" and "length (currentData D p) \<le> 50"
proof -
  from assms totalPages_bounds [of D]
  have "50 * p - 50 < int (length D)" "int (length D) \<le> 50 * p - 50 + 50" by linarith+
  with assms(1) have b: "0 < length D - nat (50 * p - 50)" "length D - nat (50 * p - 50) \<le> 50"
    by linarith+
  from assms(1) have "length (currentData D p) = min (length D - nat (50 * p - 50)) 50"
    by (simp add: currentData_take_drop)
  with b show "length (currentData D p) = length D - nat ((p - 1) * 50)"
    and "0 < length (currentData D p)" and "length (currentData D p) \<le> 50"
    unfolding offset_eq by simp_all
qed

lemma currentData_beyond:
  assumes "totalPages D < p"
  shows "currentData D p = []"
proof -
  from assms totalPages_nonneg [of D] have p: "1 \<le> p" by linarith
  from assms have "50 * totalPages D \<le> 50 * p - 50" by simp
  with totalPages_bounds(1) [of D] have "int (length D) \<le> 50 * p - 50" by linarith
  with p have "length D \<le> nat (50 * p - 50)" by linarith
  with p show ?thesis by (simp add: currentData_take_drop)
qed

text \<open>
  C5: the number of pages is the ceiling of the record count over 50, never negative and 0
  for the empty list; for a page number from 1 on, the slice is the 50 records from offset
  \<open>(p - 1) * 50\<close>, or the fewer that remain; page 1 shows the first 50 records; every page
  before the last is full; the last page holds the remaining records, at least one and at
  most 50; and a page number beyond the number of pages gives the empty slice.
\<close>

theorem pagination_spec:
  "totalPages D = \<lceil>real (length D) / 50\<rceil> \<and>
   0 \<le> totalPages D \<and>
   totalPages ([] :: 'a list) = 0 \<and>
   (1 \<le> p \<longrightarrow> currentData D p = take 50 (drop (nat ((p - 1) * 50)) D)) \<and>
   currentData D 1 = take 50 D \<and>
   (1 \<le> p \<and> p < totalPages D \<longrightarrow> length (currentData D p) = 50) \<and>
   (1 \<le> p \<and> p = totalPages D \<longrightarrow>
      length (currentData D p) = length D - nat ((p - 1) * 50) \<and>
      0 < length (currentData D p) \<and> length (currentData D p) \<le> 50) \<and>
   (totalPages D < p \<longrightarrow> currentData D p = [])"
proof -
  have 1: "totalPages D = \<lceil>real (length D) / 50\<rceil>"
    by (simp add: totalPages_def ITEMS_PER_PAGE_def)
  have 5: "currentData D 1 = take 50 D"
    by (simp add: currentData_take_drop)
  from 1 5 show ?thesis
    using totalPages_nonneg [of D] totalPages_Nil currentData_take_drop [of p D]
      currentData_full_page [of p D] currentData_last_page [of p D] currentData_beyond [of D p]
    by blast
qed

theorem pagination_spec_witness:
  "totalPages (replicate 120 rec_cesme) = 3 \<and>
   currentData (replicate 120 rec_cesme) 1 = replicate 50 rec_cesme \<and>
   length (currentData (replicate 120 rec_cesme) 2) = 50 \<and>
   length (currentData (replicate 120 rec_cesme) 3) = 20 \<and>
   currentData (replicate 120 rec_cesme) 4 = []"
proof -
  let ?D = "replicate 120 rec_cesme"
  have tp: "totalPages ?D = 3" by (rule totalPages_replicate)
  have "currentData ?D 1 = take 50 ?D"
    using pagination_spec [of ?D 1] by blast
  then have a: "currentData ?D 1 = replicate 50 rec_cesme" by simp
  have "1 \<le> (2 :: int) \<and> 2 < totalPages ?D" "1 \<le> (3 :: int) \<and> 3 = totalPages ?D"
    "totalPages ?D < 4"
    by (simp_all add: tp)
  with pagination_spec [of ?D 2] pagination_spec [of ?D 3] pagination_spec [of ?D 4]
  have b: "length (currentData ?D 2) = 50"
    and "length (currentData ?D 3) = length ?D - nat ((3 - 1) * 50)"
    and d: "currentData ?D 4 = []"
    by blast+
  then have c: "length (currentData ?D 3) = 20" by simp
  from tp a b c d show ?thesis by blast
qed

text \<open>
  C10: for every list and every integer page number, negative and zero included, the slice
  is defined (the computation has no failing branch), is a contiguous part of the list, and
  has at most 50 records.
\<close>

theorem currentData_safe:
  "sublist (currentData D p) D \<and> length (currentData D p) \<le> 50"
  unfolding currentData_def ITEMS_PER_PAGE_def Let_def
  using slice_sublist slice_length by blast

subsection \<open>The page state machine\<close>

lemma getPageNumbers_range:
  assumes "Num p \<in> set (getPageNumbers cur n)"
  shows "1 \<le> p \<and> p \<le> n"
proof (cases "n \<le> 5")
  case True
  with assms show ?thesis by (auto simp: getPageNumbers_def)
next
  case False
  define endPage where "endPage = (if cur \<le> 3 then 4 else min (n - 1) (cur + 1))"
  define startPage where
    "startPage = (if cur \<le> 3 then max 2 (cur - 1)
                  else if cur \<ge> n - 2 then n - 3 else max 2 (cur - 1))"
  from False have b: "2 \<le> startPage" "endPage \<le> n - 1"
    by (auto simp: startPage_def endPage_def)
  from assms False have "p = 1 \<or> (startPage \<le> p \<and> p \<le> endPage) \<or> p = n"
    by (auto simp: getPageNumbers_def Let_def startPage_def endPage_def split: if_splits)
  with b False show ?thesis by linarith
qed

lemma getPageNumbers_ends:
  assumes "1 < n"
  shows "Num 1 \<in> set (getPageNumbers cur n)" "Num n \<in> set (getPageNumbers cur n)"
  using assms by (auto simp: getPageNumbers_def Let_def)

lemma Pagination_Some:
  assumes "Pagination cur n ctl = Some p" "1 \<le> cur"
  shows "1 < n" "1 \<le> p" "cur \<le> n \<Longrightarrow> p \<le> n"
proof -
  from assms(1) show n: "1 < n"
    by (simp add: Pagination_def split: if_splits)
  have "1 \<le> p \<and> (cur \<le> n \<longrightarrow> p \<le> n)"
  proof (cases ctl)
    case Prev
    with assms n show ?thesis by (auto simp: Pagination_def split: if_splits)
  next
    case (Page q)
    with assms(1) n have "Num p \<in> set (getPageNumbers cur n)"
      by (auto simp: Pagination_def split: if_splits)
    then show ?thesis using getPageNumbers_range by blast
  next
    case Next
    with assms n show ?thesis by (auto simp: Pagination_def split: if_splits)
  qed
  then show "1 \<le> p" "cur \<le> n \<Longrightarrow> p \<le> n" by blast+
qed

lemma pages_currentPage: "pages lc (s\<lparr>currentPage := p\<rparr>) = pages lc s"
  by (simp add: pages_def)

lemma reachable_page: "reachable lc s \<Longrightarrow> 1 \<le> currentPage s"
proof (induction rule: reachable.induct)
  case reach_initial
  show ?case by (simp add: initial_def)
next
  case (reach_step s e)
  show ?case
  proof (cases e)
    case (Click ctl)
    show ?thesis
    proof (cases "Pagination (currentPage s) (pages lc s) ctl")
      case None
      with Click reach_step.IH show ?thesis by simp
    next
      case (Some p)
      from Some reach_step.IH have "1 \<le> p" by (rule Pagination_Some(2))
      with Click Some reach_step.IH show ?thesis by simp
    qed
  qed (use reach_step.IH in simp_all)
qed

lemma reachable_loading: "reachable lc s \<Longrightarrow> loading s \<Longrightarrow> s = initial"
proof (induction rule: reachable.induct)
  case reach_initial
  show ?case by simp
next
  case (reach_step s e)
  then show ?case
    by (cases e) (auto simp: initial_def split: if_splits option.splits)
qed

lemma reachable_run: "reachable lc s \<Longrightarrow> reachable lc (run lc es s)"
  unfolding run_def by (induction es arbitrary: s) (simp_all add: reach_step)

lemma pipeline_unfiltered: "pipeline lc [] no_filters D = D"
  by (simp add: pipeline_def searchedData_def filteredData_def no_filters_def)

lemma pages_initial: "pages lc initial = 0"
  by (simp add: pages_def initial_def pipeline_unfiltered totalPages_Nil)

lemma reachable_paged: "reachable lc s \<Longrightarrow> 1 < pages lc s \<Longrightarrow> \<not> loading s"
  using reachable_loading pages_initial by fastforce

lemma step_resets:
  "searchTerm (step lc e s) \<noteq> searchTerm s \<or> filters (step lc e s) \<noteq> filters s \<Longrightarrow>
   currentPage (step lc e s) = 1"
proof (cases e)
  case (Click ctl)
  assume "searchTerm (step lc e s) \<noteq> searchTerm s \<or> filters (step lc e s) \<noteq> filters s"
  with Click show ?thesis by (simp split: if_splits option.splits)
qed (auto split: if_splits)

lemma step_other:
  assumes "\<forall>c. e \<noteq> Click c" "currentPage (step lc e s) \<noteq> currentPage s"
  shows "currentPage (step lc e s) = 1 \<and>
         (e = Reset \<or> (\<exists>t. e = SearchInput t \<and> t \<noteq> searchTerm s) \<or> (\<exists>k v. e = FilterChange k v))"
  using assms by (cases e) (auto split: if_splits)

lemma click_hidden: "pages lc s \<le> 1 \<Longrightarrow> step lc (Click c) s = s"
  by (simp add: Pagination_def)

lemma click_prev_in_range:
  assumes "reachable lc s" "1 < pages lc s" "currentPage s \<le> pages lc s"
  shows "currentPage (step lc (Click Prev) s) = clamp (pages lc s) (currentPage s - 1)"
  using reachable_paged [OF assms(1,2)] reachable_page [OF assms(1)] assms(2,3)
  by (simp add: Pagination_def clamp_def)

lemma click_next_in_range:
  assumes "reachable lc s" "1 < pages lc s" "currentPage s \<le> pages lc s"
  shows "currentPage (step lc (Click Next) s) = clamp (pages lc s) (currentPage s + 1)"
  using reachable_paged [OF assms(1,2)] reachable_page [OF assms(1)] assms(2,3)
  by (simp add: Pagination_def clamp_def)

lemma click_page_listed:
  assumes "reachable lc s" "1 < pages lc s"
    and "Num p \<in> set (getPageNumbers (currentPage s) (pages lc s))"
  shows "currentPage (step lc (Click (Page p)) s) = p" "clamp (pages lc s) p = p"
proof -
  from assms(3) have "1 \<le> p \<and> p \<le> pages lc s" by (rule getPageNumbers_range)
  then show "clamp (pages lc s) p = p" by (simp add: clamp_def)
  from assms(2,3) reachable_paged [OF assms(1,2)]
  show "currentPage (step lc (Click (Page p)) s) = p"
    by (simp add: Pagination_def)
qed

lemma click_page_unlisted:
  "Num p \<notin> set (getPageNumbers (currentPage s) (pages lc s)) \<Longrightarrow>
   step lc (Click (Page p)) s = s"
  by (simp add: Pagination_def)

lemma click_next_beyond:
  assumes "reachable lc s" "1 < pages lc s" "pages lc s < currentPage s"
  shows "currentPage (step lc (Click Next) s) = currentPage s + 1"
  using reachable_paged [OF assms(1,2)] assms(2,3) by (simp add: Pagination_def)

lemma totalPages_eq:
  "50 * k < int (length D) + 50 \<Longrightarrow> int (length D) \<le> 50 * k \<Longrightarrow> totalPages D = k"
  using totalPages_bounds [of D] by linarith

lemma normalize_samples_rules:
  assumes "turkish_rules lc"
  shows "normalizeTurkish lc s_cesme = s_cesme"
    and "normalizeTurkish lc s_Izmir = [0x69, 0x7A, 0x6D, 0x69, 0x72]"
    and "normalizeTurkish lc s_Cesme = s_cesme"
    and "normalizeTurkish lc s_Ankara = [0x61, 0x6E, 0x6B, 0x61, 0x72, 0x61]"
    and "normalizeTurkish lc s_Ayas = [0x61, 0x79, 0x61, 0x73]"
    and "normalizeTurkish lc s_Ilica = [0x69, 0x6C, 0x69, 0x63, 0x61]"
    and "normalizeTurkish lc s_Kirsal = [0x6B, 0x69, 0x72, 0x73, 0x61, 0x6C]"
  using normalizeTurkish_latin [OF assms, of s_cesme] normalizeTurkish_latin [OF assms, of s_Izmir]
    normalizeTurkish_latin [OF assms, of s_Cesme] normalizeTurkish_latin [OF assms, of s_Ankara]
    normalizeTurkish_latin [OF assms, of s_Ayas] normalizeTurkish_latin [OF assms, of s_Ilica]
    normalizeTurkish_latin [OF assms, of s_Kirsal]
  by (simp_all add: s_Izmir_def s_Cesme_def s_cesme_def s_Ankara_def s_Ayas_def s_Ilica_def
      s_Kirsal_def foldTurkish_def tr_lower_unit_def toLower_unit_def)

lemma searched_sample_data:
  assumes "turkish_rules lc"
  shows "searchedData lc s_cesme sample_data = replicate 60 rec_cesme"
proof -
  have "searchedData lc s_cesme [rec_cesme] = [rec_cesme]" "searchedData lc s_cesme [rec_ayas] = []"
    by (simp_all add: searchedData_def Let_def sample_nonempty rec_ayas_def rec_cesme_def
        normalize_samples_rules [OF assms])
       (simp_all add: s_cesme_def)
  then show ?thesis
    by (simp add: searchedData_def Let_def sample_nonempty sample_data_def filter_replicate
        split: if_splits)
qed

lemma lagging_run:
  assumes "turkish_rules lc"
  shows "run lc lagging_events initial =
      initial\<lparr>yerlesimVerileri := sample_data, loading := False, searchTerm := s_cesme,
        deferredSearchTerm := s_cesme, currentPage := 3\<rparr>"
    and "pages lc (run lc lagging_events initial) = 2"
proof -
  let ?s1 = "initial\<lparr>yerlesimVerileri := sample_data, loading := False\<rparr>"
  let ?s2 = "?s1\<lparr>searchTerm := s_cesme, currentPage := 1\<rparr>"
  let ?s3 = "?s2\<lparr>currentPage := 3\<rparr>"
  let ?s4 = "?s3\<lparr>deferredSearchTerm := s_cesme\<rparr>"
  have i: "loading initial" "searchTerm initial = []" "deferredSearchTerm initial = []"
    "filters initial = no_filters" "currentPage initial = 1"
    by (simp_all add: initial_def)
  have len: "length sample_data = 150"
    by (simp add: sample_data_def)
  have all: "totalPages sample_data = 3"
    by (rule totalPages_eq) (simp_all add: len)
  have some: "totalPages (replicate 60 rec_cesme) = 2"
    by (rule totalPages_eq) simp_all
  have e1: "step lc (Loaded sample_data) initial = ?s1"
    by (simp add: i)
  have e2: "step lc (SearchInput s_cesme) ?s1 = ?s2"
    by (simp add: i sample_nonempty)
  have p2: "pages lc ?s2 = 3"
    by (simp add: pages_def i pipeline_unfiltered all)
  have "Num 3 \<in> set (getPageNumbers 1 3)"
    by (simp add: getPageNumbers_def)
  then have e3: "step lc (Click (Page 3)) ?s2 = ?s3"
    by (simp add: p2 [simplified] i Pagination_def)
  have e4: "step lc Deferred ?s3 = ?s4"
    by simp
  have run: "run lc lagging_events initial = ?s4"
    unfolding run_def lagging_events_def by (simp only: foldl.simps e1 e2 e3 e4)
  show "run lc lagging_events initial =
      initial\<lparr>yerlesimVerileri := sample_data, loading := False, searchTerm := s_cesme,
        deferredSearchTerm := s_cesme, currentPage := 3\<rparr>"
    unfolding run by simp
  have "pipeline lc s_cesme no_filters sample_data = replicate 60 rec_cesme"
    by (simp add: pipeline_def searched_sample_data [OF assms] filteredData_def no_filters_def)
  then show "pages lc (run lc lagging_events initial) = 2"
    unfolding run by (simp add: pages_def i some)
qed

text \<open>
  C6, on the code: load 150 records of which 60 match the query, type the query (the page
  is reset to 1 and the deferred term still lags, so three pages are offered), click page
  number 3, and let the deferred term catch up. The state is reachable, the page count is
  now 2 while the current page is 3, and a click on next moves to page 4: the request is
  not clamped to the interval from 1 to the number of pages.
\<close>

theorem page_beyond_last_page:
  "turkish_rules lc \<longrightarrow>
     reachable lc (run lc lagging_events initial) \<and>
     pages lc (run lc lagging_events initial) = 2 \<and>
     currentPage (run lc lagging_events initial) = 3 \<and>
     currentPage (step lc (Click Next) (run lc lagging_events initial)) = 4 \<and>
     clamp (pages lc (run lc lagging_events initial))
       (currentPage (run lc lagging_events initial) + 1) = 2"
proof
  assume tr: "turkish_rules lc"
  let ?s = "run lc lagging_events initial"
  have r: "reachable lc ?s"
    by (rule reachable_run) (rule reach_initial)
  have p: "pages lc ?s = 2"
    by (rule lagging_run(2) [OF tr])
  have c: "currentPage ?s = 3"
    by (simp add: lagging_run(1) [OF tr])
  from p c have b: "1 < pages lc ?s" "pages lc ?s < currentPage ?s"
    by simp_all
  have n: "currentPage (step lc (Click Next) ?s) = 4"
    using click_next_beyond [OF r b] c by simp
  from r p c n show "reachable lc ?s \<and> pages lc ?s = 2 \<and> currentPage ?s = 3 \<and>
      currentPage (step lc (Click Next) ?s) = 4 \<and>
      clamp (pages lc ?s) (currentPage ?s + 1) = 2"
    by (simp add: clamp_def)
qed

theorem page_beyond_last_page_witness:
  "turkish_rules tr_lower \<and>
   pages tr_lower (run tr_lower lagging_events initial) = 2 \<and>
   currentPage (run tr_lower lagging_events initial) = 3 \<and>
   currentPage (step tr_lower (Click Next) (run tr_lower lagging_events initial)) = 4"
  using page_beyond_last_page [of tr_lower] turkish_rules_tr_lower by blast

end
